theory Spec2Isabelle
  imports Main "HOL-Library.Sublist" "HOL-Library.AList"
begin

section \<open>The WildBerries catalogue parser (wbparser.py)\<close>

text \<open>
  The program downloads a category tree as JSON, flattens it into leaf categories,
  downloads the product listing of each category, and writes the collected records to a
  database and to a spreadsheet. The model below follows \<^verbatim>\<open>class WildBerriesParser\<close>
  method by method. Python exceptions are values of type \<open>error\<close>; a method that mutates
  \<^verbatim>\<open>self\<close> or talks to a collaborator takes the parser state and returns the new one
  together with its outcome.
\<close>

subsection \<open>JSON values and the Python operations used on them\<close>

text \<open>
  What \<^verbatim>\<open>response.json()\<close> returns. An object is the list of its items in insertion
  order (a Python dict has no duplicate keys; lookups take the first binding). Only
  integer numbers are represented: the program never computes with a number. Limits of
  the interpreter (recursion depth, memory) are not part of the model.
\<close>

datatype json =
    JNull
  | JBool bool
  | JNum int
  | JStr string
  | JArr "json list"
  | JObj "(string \<times> json) list"

datatype error =
    KeyError string
  | TypeError
  | ConnectionError
  | HTTPError nat
  | JSONDecodeError
  | InsertError
  | WorkbookError

text \<open>\<^verbatim>\<open>d[k]\<close> on a dict: KeyError when the key is absent.\<close>

definition getitem :: "(string \<times> json) list \<Rightarrow> string \<Rightarrow> error + json" where
  "getitem kv k = (case map_of kv k of None \<Rightarrow> Inl (KeyError k) | Some v \<Rightarrow> Inr v)"

text \<open>
  \<^verbatim>\<open>v[k]\<close> with a string key on any JSON value: only a dict can be subscripted by a
  string; lists, strings, numbers, booleans and None raise TypeError.
\<close>

fun subscript :: "json \<Rightarrow> string \<Rightarrow> error + json" where
  "subscript (JObj kv) k = getitem kv k"
| "subscript (JArr xs) k = Inl TypeError"
| "subscript (JStr s) k = Inl TypeError"
| "subscript (JNum n) k = Inl TypeError"
| "subscript (JBool b) k = Inl TypeError"
| "subscript JNull k = Inl TypeError"

text \<open>
  The elements a \<^verbatim>\<open>for\<close> loop or \<^verbatim>\<open>list.extend\<close> draws from a value: the
  elements of a list, the keys of a dict, the characters of a string; anything else is
  not iterable.
\<close>

fun iterate :: "json \<Rightarrow> error + json list" where
  "iterate (JArr xs) = Inr xs"
| "iterate (JObj kv) = Inr (map (\<lambda>(k, v). JStr k) kv)"
| "iterate (JStr s) = Inr (map (\<lambda>c. JStr [c]) s)"
| "iterate (JNum n) = Inl TypeError"
| "iterate (JBool b) = Inl TypeError"
| "iterate JNull = Inl TypeError"

text \<open>\<^verbatim>\<open>s + v\<close> for a string \<open>s\<close>: defined only when \<open>v\<close> is a string too.\<close>

fun str_add :: "string \<Rightarrow> json \<Rightarrow> error + string" where
  "str_add s (JStr t) = Inr (s @ t)"
| "str_add s (JArr xs) = Inl TypeError"
| "str_add s (JObj kv) = Inl TypeError"
| "str_add s (JNum n) = Inl TypeError"
| "str_add s (JBool b) = Inl TypeError"
| "str_add s JNull = Inl TypeError"

text \<open>A \<^verbatim>\<open>for\<close> loop whose body may raise: the first exception ends the loop.\<close>

fun for_each :: "('a \<Rightarrow> 's \<Rightarrow> error + 's) \<Rightarrow> 'a list \<Rightarrow> 's \<Rightarrow> error + 's" where
  "for_each body [] s = Inr s"
| "for_each body (x # xs) s =
     (case body x s of Inl e \<Rightarrow> Inl e | Inr s' \<Rightarrow> for_each body xs s')"

lemma for_each_cong [fundef_cong]:
  "xs = ys \<Longrightarrow> s = t \<Longrightarrow> (\<And>x u. x \<in> set ys \<Longrightarrow> f x u = g x u)
   \<Longrightarrow> for_each f xs s = for_each g ys t"
  by (induction ys arbitrary: xs s t) (auto split: sum.splits)

lemma size_map_of [termination_simp]:
  "map_of kv k = Some v \<Longrightarrow> size v < Suc (size_list (size_prod (\<lambda>_. 0) size) kv)"
  by (induction kv) (auto split: if_splits)

lemma size_iterate:
  "iterate v = Inr cs \<Longrightarrow> c \<in> set cs \<Longrightarrow> size c < Suc (size v)"
proof (cases v)
  case (JArr xs)
  assume "iterate v = Inr cs" "c \<in> set cs"
  with JArr have "c \<in> set xs" by simp
  then have "size c \<le> size_list size xs"
    by (rule size_list_estimation') simp
  with JArr show ?thesis by simp
qed auto

subsection \<open>process_catalogue\<close>

text \<open>One element of \<^verbatim>\<open>flattened_catalogue\<close>: the dict \<^verbatim>\<open>{'name': ..., 'url': ...}\<close>.\<close>

record category =
  name :: string
  url :: json

text \<open>
  \<^verbatim>\<open>
  def traverse_json(category, parent_name=""):
      if 'children' in category:
          for child in category['children']:
              traverse_json(child, parent_name + category['name'] + ' -> ')
      else:
          flattened_catalogue.append({'name': parent_name + category['name'], 'url': category['url']})
  \<close>
  The closure appends to \<^verbatim>\<open>flattened_catalogue\<close>; the model threads that list. The
  argument of the recursive call is evaluated anew for every child, before the call. On
  a value that is not a dict, either the membership test or the subscript that follows
  it raises TypeError.
\<close>

function traverse_json :: "json \<Rightarrow> string \<Rightarrow> category list \<Rightarrow> error + category list" where
  "traverse_json (JObj kv) parent_name flattened_catalogue =
     (case map_of kv ''children'' of
        Some children \<Rightarrow>
          (case iterate children of
             Inl e \<Rightarrow> Inl e
           | Inr cs \<Rightarrow>
               for_each
                 (\<lambda>child out.
                    case getitem kv ''name'' of
                      Inl e \<Rightarrow> Inl e
                    | Inr n \<Rightarrow>
                        (case str_add parent_name n of
                           Inl e \<Rightarrow> Inl e
                         | Inr p \<Rightarrow> traverse_json child (p @ '' -> '') out))
                 cs flattened_catalogue)
      | None \<Rightarrow>
          (case getitem kv ''name'' of
             Inl e \<Rightarrow> Inl e
           | Inr n \<Rightarrow>
               (case str_add parent_name n of
                  Inl e \<Rightarrow> Inl e
                | Inr full \<Rightarrow>
                    (case getitem kv ''url'' of
                       Inl e \<Rightarrow> Inl e
                     | Inr u \<Rightarrow> Inr (flattened_catalogue @ [\<lparr>name = full, url = u\<rparr>])))))"
| "traverse_json (JArr xs) parent_name flattened_catalogue = Inl TypeError"
| "traverse_json (JStr s) parent_name flattened_catalogue = Inl TypeError"
| "traverse_json (JNum n) parent_name flattened_catalogue = Inl TypeError"
| "traverse_json (JBool b) parent_name flattened_catalogue = Inl TypeError"
| "traverse_json JNull parent_name flattened_catalogue = Inl TypeError"
  by pat_completeness auto
termination
proof (relation "measure (\<lambda>(j, p, out). size j)", goal_cases)
  case 1
  show ?case by simp
next
  case (2 kv parent_name out children cs child)
  then show ?case
    using size_map_of[of kv "''children''" children] size_iterate[of children cs child]
    by simp
qed

definition process_catalogue :: "json \<Rightarrow> error + category list" where
  "process_catalogue catalogue = traverse_json catalogue [] []"

subsection \<open>The collaborators and the parser state\<close>

text \<open>
  Every call the program makes to the outside is recorded, in order: an HTTP GET with
  its URL and headers, an insert into the database, the writing of the workbook.
\<close>

datatype event =
    HttpGet string "(string \<times> string) list"
  | InsertProductCard json
  | SaveWorkbook "json list"

text \<open>
  What \<^verbatim>\<open>requests.get\<close> gives: no response at all (the call raises), or a response
  with a status code and a body; the body is \<open>None\<close> when it is not JSON, so that
  \<^verbatim>\<open>.json()\<close> raises.
\<close>

datatype http_result =
    NoResponse
  | Response nat "json option"

text \<open>
  The collaborators, as functions of the calls made so far: the HTTP client, the
  database's \<^verbatim>\<open>insert_product_card\<close> and the spreadsheet writer (\<open>True\<close>: the call
  returns, \<open>False\<close>: it raises), and Python's \<^verbatim>\<open>str()\<close> on a value that is not a
  string, which the f-string of the listing URL applies.
\<close>

record env =
  http_get :: "event list \<Rightarrow> string \<Rightarrow> (string \<times> string) list \<Rightarrow> http_result"
  insert_product_card :: "event list \<Rightarrow> json \<Rightarrow> bool"
  save_workbook :: "event list \<Rightarrow> json list \<Rightarrow> bool"
  py_str :: "json \<Rightarrow> string"

text \<open>
  The parser object: of its attributes only \<^verbatim>\<open>product_cards\<close> is ever written after
  construction. \<open>events\<close> is the record of the calls made to the collaborators.
\<close>

record parser =
  product_cards :: "json list"
  events :: "event list"

definition headers :: "(string \<times> string) list" where
  "headers =
     [(''Accept'', ''*/*''),
      (''User-Agent'',
       ''Mozilla/5.0 (Windows NT 10.0; Win64; x64) AppleWebKit/537.36 (KHTML, like Gecko) Chrome/58.0.3029.110 Safari/537.3'')]"

definition init :: parser where
  "init = \<lparr>product_cards = [], events = []\<rparr>"

definition record_event :: "event \<Rightarrow> parser \<Rightarrow> parser" where
  "record_event ev s = s\<lparr>events := events s @ [ev]\<rparr>"

subsection \<open>download_current_catalogue\<close>

definition catalogue_url :: string where
  "catalogue_url = ''https://search.wb.ru/catalog.json''"

text \<open>\<^verbatim>\<open>Response.raise_for_status\<close> raises for the codes 400 to 599.\<close>

definition raises_for_status :: "nat \<Rightarrow> bool" where
  "raises_for_status status = (400 \<le> status \<and> status < 600)"

text \<open>
  \<^verbatim>\<open>
  response = requests.get(catalogue_url, headers=self.headers)
  response.raise_for_status()
  return response.json()
  \<close>
\<close>

definition download_current_catalogue :: "env \<Rightarrow> parser \<Rightarrow> (error + json) \<times> parser" where
  "download_current_catalogue w s =
     (let s' = record_event (HttpGet catalogue_url headers) s in
      case http_get w (events s) catalogue_url headers of
        NoResponse \<Rightarrow> (Inl ConnectionError, s')
      | Response status body \<Rightarrow>
          if raises_for_status status then (Inl (HTTPError status), s')
          else (case body of
                  None \<Rightarrow> (Inl JSONDecodeError, s')
                | Some catalogue \<Rightarrow> (Inr catalogue, s')))"

subsection \<open>parse_product_cards\<close>

text \<open>\<^verbatim>\<open>f'https://search.wb.ru/catalog/{category_url}'\<close>\<close>

definition product_cards_url :: "env \<Rightarrow> json \<Rightarrow> string" where
  "product_cards_url w category_url =
     ''https://search.wb.ru/catalog/'' @
       (case category_url of JStr u \<Rightarrow> u | _ \<Rightarrow> py_str w category_url)"

text \<open>
  The body of the loop over the flattened catalogue:
  \<^verbatim>\<open>
  category_name = category['name']
  category_url = category['url']
  product_cards_url = f'https://search.wb.ru/catalog/{category_url}'
  response = requests.get(product_cards_url, headers=self.headers).json()
  self.product_cards.extend(response['products'])
  \<close>
  The two reads cannot fail, \<open>process_catalogue\<close> having built the dict with both
  keys. There is no \<^verbatim>\<open>raise_for_status\<close> here: the status code is not looked at.
  The request is recorded whether it is answered or not.
\<close>

definition parse_category :: "env \<Rightarrow> category \<Rightarrow> parser \<Rightarrow> (error + unit) \<times> parser" where
  "parse_category w c s =
     (let u = product_cards_url w (url c);
          s' = record_event (HttpGet u headers) s in
      case http_get w (events s) u headers of
        NoResponse \<Rightarrow> (Inl ConnectionError, s')
      | Response status body \<Rightarrow>
          (case body of
             None \<Rightarrow> (Inl JSONDecodeError, s')
           | Some response \<Rightarrow>
               (case subscript response ''products'' of
                  Inl e \<Rightarrow> (Inl e, s')
                | Inr products \<Rightarrow>
                    (case iterate products of
                       Inl e \<Rightarrow> (Inl e, s')
                     | Inr ps \<Rightarrow> (Inr (), s'\<lparr>product_cards := product_cards s' @ ps\<rparr>)))))"

fun parse_categories :: "env \<Rightarrow> category list \<Rightarrow> parser \<Rightarrow> (error + unit) \<times> parser" where
  "parse_categories w [] s = (Inr (), s)"
| "parse_categories w (c # cs) s =
     (case parse_category w c s of
        (Inl e, s') \<Rightarrow> (Inl e, s')
      | (Inr _, s') \<Rightarrow> parse_categories w cs s')"

definition parse_product_cards :: "env \<Rightarrow> parser \<Rightarrow> (error + unit) \<times> parser" where
  "parse_product_cards w s =
     (case download_current_catalogue w s of
        (Inl e, s') \<Rightarrow> (Inl e, s')
      | (Inr catalogue, s') \<Rightarrow>
          (case process_catalogue catalogue of
             Inl e \<Rightarrow> (Inl e, s')
           | Inr cats \<Rightarrow> parse_categories w cats s'))"

subsection \<open>The sinks and main\<close>

text \<open>
  \<^verbatim>\<open>
  for product_card in self.product_cards:
      self.chroma_db.insert_product_card(product_card)
  \<close>
  An insert is recorded whether it returns or raises; the first one that raises ends
  the loop.
\<close>

fun insert_all :: "env \<Rightarrow> json list \<Rightarrow> parser \<Rightarrow> (error + unit) \<times> parser" where
  "insert_all w [] s = (Inr (), s)"
| "insert_all w (p # ps) s =
     (let s' = record_event (InsertProductCard p) s in
      if insert_product_card w (events s) p then insert_all w ps s'
      else (Inl InsertError, s'))"

definition write_to_database :: "env \<Rightarrow> parser \<Rightarrow> (error + unit) \<times> parser" where
  "write_to_database w s = insert_all w (product_cards s) s"

text \<open>
  The workbook is built from \<^verbatim>\<open>self.product_cards\<close> by pandas and openpyxl and saved;
  the model takes that as one call to the spreadsheet writer, which returns or raises.
  The message printed afterwards is not modelled.
\<close>

definition write_to_excel :: "env \<Rightarrow> parser \<Rightarrow> (error + unit) \<times> parser" where
  "write_to_excel w s =
     (let s' = record_event (SaveWorkbook (product_cards s)) s in
      if save_workbook w (events s) (product_cards s) then (Inr (), s')
      else (Inl WorkbookError, s'))"

text \<open>
  \<^verbatim>\<open>
  self.parse_product_cards()
  self.write_to_database()
  self.write_to_excel()
  \<close>
\<close>

definition main :: "env \<Rightarrow> parser \<Rightarrow> (error + unit) \<times> parser" where
  "main w s =
     (case parse_product_cards w s of
        (Inl e, s1) \<Rightarrow> (Inl e, s1)
      | (Inr _, s1) \<Rightarrow>
          (case write_to_database w s1 of
             (Inl e, s2) \<Rightarrow> (Inl e, s2)
           | (Inr _, s2) \<Rightarrow> write_to_excel w s2))"

subsection \<open>The category tree of the specification\<close>

text \<open>
  The following definitions are not taken from the program: they say what the
  specification means by a category tree, by its leaves and by the path of a leaf, and
  the program is compared with them.
\<close>

fun node_name :: "json \<Rightarrow> string option" where
  "node_name (JObj kv) = (case map_of kv ''name'' of Some (JStr n) \<Rightarrow> Some n | _ \<Rightarrow> None)"
| "node_name _ = None"

fun node_url :: "json \<Rightarrow> json option" where
  "node_url (JObj kv) = map_of kv ''url''"
| "node_url _ = None"

lemma size_child [termination_simp]:
  assumes "map_of kv k = Some (JArr cs)" and "c \<in> set cs"
  shows "size c < Suc (size_list (\<lambda>x. Suc (size (snd x))) kv)"
proof -
  have "size c \<le> size_list size cs"
    using assms(2) by (rule size_list_estimation') simp
  moreover have "size (JArr cs) \<le> size_list (\<lambda>x. Suc (size (snd x))) kv"
    using assms(1) by (induction kv) (auto split: if_splits)
  ultimately show ?thesis by simp
qed

text \<open>
  A category tree: every node is an object; its \<^verbatim>\<open>children\<close>, when present, is a
  sequence of category trees; a leaf (a node without \<^verbatim>\<open>children\<close>) carries a name and
  a url; and every node that has a child, that is, every ancestor of some node, carries
  a name, so that the ancestor names of a path exist. Names are strings. The
  specification has a name on every node; a node whose \<^verbatim>\<open>children\<close> is empty is let
  off here, since no path goes through it.
\<close>

fun catalogue_tree :: "json \<Rightarrow> bool" where
  "catalogue_tree (JObj kv) =
     (case map_of kv ''children'' of
        None \<Rightarrow> node_name (JObj kv) \<noteq> None \<and> node_url (JObj kv) \<noteq> None
      | Some (JArr cs) \<Rightarrow>
          (cs = [] \<or> node_name (JObj kv) \<noteq> None) \<and> list_all catalogue_tree cs
      | Some _ \<Rightarrow> False)"
| "catalogue_tree _ = False"

text \<open>
  The leaves of a tree in depth-first pre-order, children in their given order, each
  with its ancestors from the root down.
\<close>

fun leaves :: "json \<Rightarrow> (json list \<times> json) list" where
  "leaves (JObj kv) =
     (case map_of kv ''children'' of
        None \<Rightarrow> [([], JObj kv)]
      | Some (JArr cs) \<Rightarrow>
          concat (map (\<lambda>c. map (\<lambda>(ancestors, leaf). (JObj kv # ancestors, leaf)) (leaves c)) cs)
      | Some _ \<Rightarrow> [])"
| "leaves _ = []"

fun count_leaves :: "json \<Rightarrow> nat" where
  "count_leaves (JObj kv) =
     (case map_of kv ''children'' of
        None \<Rightarrow> 1
      | Some (JArr cs) \<Rightarrow> sum_list (map count_leaves cs)
      | Some _ \<Rightarrow> 0)"
| "count_leaves _ = 0"

text \<open>Every name followed by the separator.\<close>

definition path_prefix :: "string list \<Rightarrow> string" where
  "path_prefix names = concat (map (\<lambda>a. a @ '' -> '') names)"

text \<open>
  The flattened category of a leaf: the ancestor names, each followed by the separator,
  then the leaf's own name; and the leaf's url. It is defined when all those names and
  the url exist.
\<close>

definition path_entry :: "json list \<times> json \<Rightarrow> category option" where
  "path_entry = (\<lambda>(ancestors, leaf).
     case (those (map node_name ancestors), node_name leaf, node_url leaf) of
       (Some ns, Some n, Some u) \<Rightarrow> Some \<lparr>name = path_prefix ns @ n, url = u\<rparr>
     | _ \<Rightarrow> None)"

text \<open>The scenario of the specification: Root with the leaf Shoes and the group Bags.\<close>

definition scenario_tree :: json where
  "scenario_tree =
     JObj [(''name'', JStr ''Root''),
           (''children'',
            JArr [JObj [(''name'', JStr ''Shoes''), (''url'', JStr ''shoes123'')],
                  JObj [(''name'', JStr ''Bags''),
                        (''children'',
                         JArr [JObj [(''name'', JStr ''Totes''), (''url'', JStr ''totes55'')]])]])]"

text \<open>
  Three nodes for the edge cases: a node whose \<^verbatim>\<open>children\<close> is present and empty, the
  same node without \<^verbatim>\<open>children\<close>, and a node that has both children and a url.
\<close>

definition empty_group :: json where
  "empty_group =
     JObj [(''name'', JStr ''Bags''), (''children'', JArr []), (''url'', JStr ''bags7'')]"

definition plain_leaf :: json where
  "plain_leaf = JObj [(''name'', JStr ''Bags''), (''url'', JStr ''bags7'')]"

definition group_with_url :: json where
  "group_with_url =
     JObj [(''name'', JStr ''Bags''), (''url'', JStr ''bags7''),
           (''children'', JArr [JObj [(''name'', JStr ''Totes''), (''url'', JStr ''totes55'')]])]"

subsection \<open>Reading the record of calls\<close>

text \<open>A write to one of the two sinks, and the writing of the workbook alone.\<close>

fun is_sink_write :: "event \<Rightarrow> bool" where
  "is_sink_write (HttpGet u h) = False"
| "is_sink_write (InsertProductCard p) = True"
| "is_sink_write (SaveWorkbook ps) = True"

fun is_save :: "event \<Rightarrow> bool" where
  "is_save (SaveWorkbook ps) = True"
| "is_save (HttpGet u h) = False"
| "is_save (InsertProductCard p) = False"

text \<open>The request \<open>parse_product_cards\<close> makes for a category.\<close>

definition listing_request :: "env \<Rightarrow> category \<Rightarrow> event" where
  "listing_request w c = HttpGet (product_cards_url w (url c)) headers"

text \<open>A parser state with the records \<open>xs\<close> put in front of its collection.\<close>

definition prepend_cards :: "json list \<Rightarrow> parser \<Rightarrow> parser" where
  "prepend_cards xs t = t\<lparr>product_cards := xs @ product_cards t\<rparr>"

text \<open>
  The records a run of \<open>parse_product_cards\<close> from the state \<open>s\<close> fetches: what it
  leaves in the collection when the collection is empty at the start and the calls made
  so far are those of \<open>s\<close>.
\<close>

definition fetched :: "env \<Rightarrow> parser \<Rightarrow> json list" where
  "fetched w s = product_cards (snd (parse_product_cards w (s\<lparr>product_cards := []\<rparr>)))"

subsection \<open>A small shop\<close>

text \<open>
  A catalogue with the two leaf categories Shoes and Bags, and collaborators that answer
  the three URLs with given responses, whatever was called before; the database accepts
  the records that satisfy \<open>accepts\<close>.
\<close>

definition shop_catalogue :: json where
  "shop_catalogue =
     JObj [(''name'', JStr ''Root''),
           (''children'',
            JArr [JObj [(''name'', JStr ''Shoes''), (''url'', JStr ''shoes123'')],
                  JObj [(''name'', JStr ''Bags''), (''url'', JStr ''bags7'')]])]"

definition shoes :: category where
  "shoes = \<lparr>name = ''Root -> Shoes'', url = JStr ''shoes123''\<rparr>"

definition bags :: category where
  "bags = \<lparr>name = ''Root -> Bags'', url = JStr ''bags7''\<rparr>"

definition product :: "int \<Rightarrow> json" where
  "product i = JObj [(''id'', JNum i)]"

definition listing :: "json list \<Rightarrow> json" where
  "listing ps = JObj [(''products'', JArr ps)]"

definition shop :: "http_result \<Rightarrow> http_result \<Rightarrow> http_result \<Rightarrow> (json \<Rightarrow> bool) \<Rightarrow> env" where
  "shop cat shoes_listing bags_listing accepts =
     \<lparr>http_get = (\<lambda>h u hs.
        if u = catalogue_url then cat
        else if u = ''https://search.wb.ru/catalog/shoes123'' then shoes_listing
        else if u = ''https://search.wb.ru/catalog/bags7'' then bags_listing
        else NoResponse),
      insert_product_card = (\<lambda>h p. accepts p),
      save_workbook = (\<lambda>h ps. True),
      py_str = (\<lambda>v. [])\<rparr>"

section \<open>Flattening the catalogue\<close>

lemma for_each_append:
  "(\<And>x out. x \<in> set xs \<Longrightarrow> body x out = Inr (out @ g x))
   \<Longrightarrow> for_each body xs out = Inr (out @ concat (map g xs))"
  by (induction xs arbitrary: out) simp_all

lemma those_snoc:
  "those (map f xs) = Some ys \<Longrightarrow> f x = Some y \<Longrightarrow> those (map f (xs @ [x])) = Some (ys @ [y])"
  by (induction xs arbitrary: ys) (auto split: option.splits)

lemma path_prefix_snoc: "path_prefix (ns @ [n]) = path_prefix ns @ n @ '' -> ''"
  by (simp add: path_prefix_def)

lemma length_leaves: "length (leaves t) = count_leaves t"
proof (induction t rule: leaves.induct)
  case (1 kv)
  show ?case
  proof (cases "map_of kv ''children''")
    case None
    then show ?thesis by simp
  next
    case (Some ch)
    show ?thesis
    proof (cases ch)
      case (JArr cs)
      have "\<And>c. c \<in> set cs \<Longrightarrow> length (leaves c) = count_leaves c"
        using 1 Some JArr by simp
      then have "map (\<lambda>c. length (leaves c)) cs = map count_leaves cs"
        by simp
      then have "sum_list (map (\<lambda>c. length (leaves c)) cs) = sum_list (map count_leaves cs)"
        by (rule arg_cong)
      then show ?thesis
        using Some JArr by (simp add: length_concat comp_def)
    qed (use Some in simp_all)
  qed
qed simp_all

text \<open>
  The traversal of a subtree below the ancestors \<open>anc\<close>, whose names are \<open>ns\<close>: it
  appends the entries of the subtree's leaves to what was collected before.
\<close>

lemma traverse_json_tree:
  "catalogue_tree t \<Longrightarrow> those (map node_name anc) = Some ns \<Longrightarrow>
   traverse_json t (path_prefix ns) out =
     Inr (out @ map (\<lambda>(a, l). the (path_entry (anc @ a, l))) (leaves t)) \<and>
   (\<forall>(a, l) \<in> set (leaves t). path_entry (anc @ a, l) \<noteq> None)"
proof (induction t arbitrary: anc ns out rule: catalogue_tree.induct)
  case (1 kv)
  show ?case
  proof (cases "map_of kv ''children''")
    case None
    with 1(2) obtain n u
      where n: "map_of kv ''name'' = Some (JStr n)" and u: "map_of kv ''url'' = Some u"
      by (auto split: option.splits json.splits)
    show ?thesis
      using None n u 1(3) by (simp add: getitem_def path_entry_def)
  next
    case (Some ch)
    with 1(2) obtain cs where ch: "ch = JArr cs"
      by (auto split: json.splits)
    have wf: "\<And>c. c \<in> set cs \<Longrightarrow> catalogue_tree c"
      using 1(2) Some ch by (simp add: list_all_iff)
    show ?thesis
    proof (cases "cs = []")
      case True
      then show ?thesis using Some ch by simp
    next
      case False
      with 1(2) Some ch obtain n where n: "map_of kv ''name'' = Some (JStr n)"
        by (auto split: option.splits json.splits)
      let ?below = "\<lambda>c. map (\<lambda>(a, l). the (path_entry ((anc @ [JObj kv]) @ a, l))) (leaves c)"
      have anc': "those (map node_name (anc @ [JObj kv])) = Some (ns @ [n])"
        using 1(3) n by (intro those_snoc) simp_all
      have IH: "\<And>c out. c \<in> set cs \<Longrightarrow>
          traverse_json c (path_prefix (ns @ [n])) out = Inr (out @ ?below c) \<and>
          (\<forall>(a, l) \<in> set (leaves c). path_entry ((anc @ [JObj kv]) @ a, l) \<noteq> None)"
        using 1(1)[OF Some ch _ wf anc'] by blast
      have loop: "for_each
             (\<lambda>child out. traverse_json child (path_prefix ns @ n @ '' -> '') out) cs out =
           Inr (out @ concat (map ?below cs))"
        by (rule for_each_append) (use IH in \<open>simp add: path_prefix_snoc\<close>)
      have "traverse_json (JObj kv) (path_prefix ns) out = Inr (out @ concat (map ?below cs))"
        using Some ch n loop by (simp add: getitem_def)
      moreover have "concat (map ?below cs)
          = map (\<lambda>(a, l). the (path_entry (anc @ a, l))) (leaves (JObj kv))"
        using Some ch by (simp add: map_concat comp_def case_prod_unfold)
      moreover have "\<forall>(a, l) \<in> set (leaves (JObj kv)). path_entry (anc @ a, l) \<noteq> None"
        using Some ch IH by fastforce
      ultimately show ?thesis by simp
    qed
  qed
qed simp_all

text \<open>
  Claim C1. For every catalogue tree in which every leaf carries a name and a url,
  \<open>process_catalogue\<close> returns one entry per leaf, in depth-first pre-order following
  the order of the children: the entry of a leaf has as name the names of its ancestors
  from the root down, each followed by \<open>'' -> ''\<close>, and then the leaf's own name, and
  as url the leaf's url. The number of entries is the number of leaves.
\<close>

theorem process_catalogue_flattens:
  assumes "catalogue_tree t"
  shows "\<exists>es. process_catalogue t = Inr es \<and>
              map Some es = map path_entry (leaves t) \<and>
              length es = count_leaves t"
proof -
  have "those (map node_name []) = Some []" by simp
  from traverse_json_tree[OF assms this, of "[]"]
  have run: "process_catalogue t = Inr (map (\<lambda>(a, l). the (path_entry (a, l))) (leaves t))"
    and def: "\<forall>(a, l) \<in> set (leaves t). path_entry (a, l) \<noteq> None"
    by (simp_all add: process_catalogue_def path_prefix_def)
  let ?es = "map (\<lambda>(a, l). the (path_entry (a, l))) (leaves t)"
  have "map Some ?es = map path_entry (leaves t)"
    using def by (auto simp: case_prod_unfold)
  moreover have "length ?es = count_leaves t"
    by (simp add: length_leaves)
  ultimately show ?thesis using run by blast
qed

lemma process_catalogue_scenario:
  "process_catalogue scenario_tree =
     Inr [\<lparr>name = ''Root -> Shoes'', url = JStr ''shoes123''\<rparr>,
          \<lparr>name = ''Root -> Bags -> Totes'', url = JStr ''totes55''\<rparr>]"
  by (simp add: process_catalogue_def scenario_tree_def getitem_def)

theorem process_catalogue_flattens_witness:
  "catalogue_tree scenario_tree \<and>
   (\<exists>es. process_catalogue scenario_tree = Inr es \<and>
         map Some es = map path_entry (leaves scenario_tree) \<and>
         length es = count_leaves scenario_tree) \<and>
   map path_entry (leaves scenario_tree) =
     [Some \<lparr>name = ''Root -> Shoes'', url = JStr ''shoes123''\<rparr>,
      Some \<lparr>name = ''Root -> Bags -> Totes'', url = JStr ''totes55''\<rparr>]"
proof -
  have tree: "catalogue_tree scenario_tree"
    by (simp add: scenario_tree_def)
  have paths: "map path_entry (leaves scenario_tree) =
     [Some \<lparr>name = ''Root -> Shoes'', url = JStr ''shoes123''\<rparr>,
      Some \<lparr>name = ''Root -> Bags -> Totes'', url = JStr ''totes55''\<rparr>]"
    by (simp add: scenario_tree_def path_entry_def path_prefix_def)
  from process_catalogue_flattens[OF tree] tree paths show ?thesis by blast
qed

text \<open>
  Claim C9. When the root has no \<^verbatim>\<open>children\<close> field (and carries a name and a url),
  \<open>process_catalogue\<close> returns exactly one entry; its name is the root's own name,
  with no separator before it, and its url is the root's url.
\<close>

theorem root_leaf_entry:
  assumes "map_of kv ''children'' = None"
    and "map_of kv ''name'' = Some (JStr n)"
    and "map_of kv ''url'' = Some u"
  shows "process_catalogue (JObj kv) = Inr [\<lparr>name = n, url = u\<rparr>]"
  using assms by (simp add: process_catalogue_def getitem_def)

theorem root_leaf_entry_witness:
  "process_catalogue (JObj [(''name'', JStr ''Shoes''), (''url'', JStr ''shoes123'')]) =
     Inr [\<lparr>name = ''Shoes'', url = JStr ''shoes123''\<rparr>]"
proof -
  let ?kv = "[(''name'', JStr ''Shoes''), (''url'', JStr ''shoes123'')]"
  have 1: "map_of ?kv ''children'' = None" by simp
  have 2: "map_of ?kv ''name'' = Some (JStr ''Shoes'')" by simp
  have 3: "map_of ?kv ''url'' = Some (JStr ''shoes123'')" by simp
  from root_leaf_entry[OF 1 2 3] show ?thesis .
qed

text \<open>
  What the tree condition rules out does raise: a node that has a child but no name, and
  a leaf without a url, end the flattening with KeyError.
\<close>

lemma missing_name_raises:
  assumes "map_of kv ''children'' = Some (JArr (c # cs))"
    and "map_of kv ''name'' = None"
  shows "traverse_json (JObj kv) parent_name out = Inl (KeyError ''name'')"
  using assms by (simp add: getitem_def)

lemma missing_url_raises:
  assumes "map_of kv ''children'' = None"
    and "map_of kv ''name'' = Some (JStr n)"
    and "map_of kv ''url'' = None"
  shows "traverse_json (JObj kv) parent_name out = Inl (KeyError ''url'')"
  using assms by (simp add: getitem_def)

subsection \<open>A node whose children are present but empty\<close>

text \<open>
  Claim C2 says that a node with an empty \<^verbatim>\<open>children\<close> sequence is flattened like a
  leaf, to one entry with its own name and url. The program tests for the presence of
  the key only: the loop over no children emits nothing, while the same node without
  the key gives one entry; below the root Shoes and the empty Bags give Shoes alone.
\<close>

theorem empty_children_counterexample:
  "process_catalogue empty_group = Inr [] \<and>
   process_catalogue plain_leaf = Inr [\<lparr>name = ''Bags'', url = JStr ''bags7''\<rparr>] \<and>
   process_catalogue empty_group \<noteq> process_catalogue plain_leaf \<and>
   process_catalogue
     (JObj [(''name'', JStr ''Root''),
            (''children'', JArr [JObj [(''name'', JStr ''Shoes''), (''url'', JStr ''shoes123'')],
                                 empty_group])]) =
     Inr [\<lparr>name = ''Root -> Shoes'', url = JStr ''shoes123''\<rparr>]"
  by (simp add: process_catalogue_def empty_group_def plain_leaf_def getitem_def)

text \<open>
  Claim C2, as amended. A node whose \<^verbatim>\<open>children\<close> field is present and is an empty
  sequence emits no entry: the traversal returns what was collected before it, whatever
  the node's name and url are, and as a root it flattens to the empty list.
\<close>

theorem empty_children_emit_nothing:
  assumes "map_of kv ''children'' = Some (JArr [])"
  shows "traverse_json (JObj kv) parent_name out = Inr out \<and> process_catalogue (JObj kv) = Inr []"
  using assms by (simp add: process_catalogue_def)

theorem empty_children_emit_nothing_witness:
  "map_of [(''name'', JStr ''Bags''), (''children'', JArr []), (''url'', JStr ''bags7'')] ''children''
     = Some (JArr []) \<and>
   traverse_json empty_group ''Root -> '' [\<lparr>name = ''Root -> Shoes'', url = JStr ''shoes123''\<rparr>]
     = Inr [\<lparr>name = ''Root -> Shoes'', url = JStr ''shoes123''\<rparr>] \<and>
   process_catalogue empty_group = Inr []"
proof -
  have h: "map_of [(''name'', JStr ''Bags''), (''children'', JArr []), (''url'', JStr ''bags7'')] ''children''
     = Some (JArr [])" by simp
  from empty_children_emit_nothing[OF h] h show ?thesis
    unfolding empty_group_def by blast
qed

subsection \<open>A node with both children and a url\<close>

lemma for_each_emits:
  assumes "\<And>x acc r. x \<in> set xs \<Longrightarrow> body x acc = Inr r \<Longrightarrow>
             \<exists>new. r = acc @ new \<and> (\<forall>e\<in>set new. P e)"
    and "for_each body xs out = Inr es"
  shows "\<exists>new. es = out @ new \<and> (\<forall>e\<in>set new. P e)"
  using assms
proof (induction xs arbitrary: out)
  case Nil
  then show ?case by simp
next
  case (Cons x xs)
  from Cons.prems(2) obtain r where r: "body x out = Inr r" and rest: "for_each body xs r = Inr es"
    by (auto split: sum.splits)
  from Cons.prems(1)[OF _ r] obtain new1 where n1: "r = out @ new1" "\<forall>e\<in>set new1. P e"
    by auto
  have "\<exists>new. es = r @ new \<and> (\<forall>e\<in>set new. P e)"
    by (rule Cons.IH[OF _ rest]) (use Cons.prems(1) in auto)
  then obtain new2 where "es = r @ new2" "\<forall>e\<in>set new2. P e" by blast
  with n1 have "es = out @ (new1 @ new2)" "\<forall>e\<in>set (new1 @ new2). P e" by auto
  then show ?case by blast
qed

lemma traverse_json_emits:
  "traverse_json t q out = Inr es \<Longrightarrow>
     \<exists>new. es = out @ new \<and> (\<forall>e\<in>set new. prefix q (name e))"
proof (induction t q out arbitrary: es rule: traverse_json.induct)
  case (1 kv parent_name out)
  show ?case
  proof (cases "map_of kv ''children''")
    case None
    with 1(2) obtain n u where "es = out @ [\<lparr>name = parent_name @ n, url = u\<rparr>]"
      by (auto split: sum.splits elim: str_add.elims)
    then show ?thesis by simp
  next
    case (Some ch)
    with 1(2) obtain cs where cs: "iterate ch = Inr cs"
      by (auto split: sum.splits)
    let ?body = "\<lambda>child out.
                    case getitem kv ''name'' of
                      Inl e \<Rightarrow> Inl e
                    | Inr n \<Rightarrow>
                        (case str_add parent_name n of
                           Inl e \<Rightarrow> Inl e
                         | Inr p \<Rightarrow> traverse_json child (p @ '' -> '') out)"
    have run: "for_each ?body cs out = Inr es"
      using 1(2) Some cs by simp
    show ?thesis
    proof (rule for_each_emits[OF _ run])
      fix x acc r assume x: "x \<in> set cs" and b: "?body x acc = Inr r"
      from b obtain n p where n: "getitem kv ''name'' = Inr n" and p: "str_add parent_name n = Inr p"
        and t: "traverse_json x (p @ '' -> '') acc = Inr r"
        by (auto split: sum.splits)
      from 1(1)[OF Some cs x n p t] obtain new where
        new: "r = acc @ new" "\<forall>e\<in>set new. prefix (p @ '' -> '') (name e)" by blast
      from p have "prefix parent_name p" by (auto elim: str_add.elims)
      then have "prefix parent_name (p @ '' -> '')" by (simp add: prefix_prefix)
      with new(2) have "\<forall>e\<in>set new. prefix parent_name (name e)"
        by (meson prefix_order.trans)
      with new(1) show "\<exists>new. r = acc @ new \<and> (\<forall>e\<in>set new. prefix parent_name (name e))"
        by blast
    qed
  qed
qed simp_all

text \<open>
  Claim C8. A node that carries a non-empty \<^verbatim>\<open>children\<close> sequence and a url (and a
  name) takes the children branch: its traversal is the loop over the children with the
  prefix extended by the node's name and the separator; the url plays no part, the
  result being that of the same node without its url; and every entry the node
  contributes has a name below the extended prefix, so none is the node's own.
\<close>

theorem children_take_precedence:
  assumes "map_of kv ''children'' = Some (JArr (c # cs))"
    and "map_of kv ''name'' = Some (JStr n)"
    and "map_of kv ''url'' = Some u"
  shows "traverse_json (JObj kv) parent_name out =
           for_each (\<lambda>child acc. traverse_json child (parent_name @ n @ '' -> '') acc) (c # cs) out \<and>
         traverse_json (JObj kv) parent_name out =
           traverse_json (JObj (AList.delete ''url'' kv)) parent_name out \<and>
         (\<forall>es. traverse_json (JObj kv) parent_name out = Inr es \<longrightarrow>
            (\<exists>new. es = out @ new \<and>
               (\<forall>e\<in>set new. prefix (parent_name @ n @ '' -> '') (name e))))"
proof -
  let ?down = "for_each (\<lambda>child acc. traverse_json child (parent_name @ n @ '' -> '') acc) (c # cs) out"
  have a: "traverse_json (JObj kv) parent_name out = ?down"
    using assms(1,2) by (simp add: getitem_def)
  have "map_of (AList.delete ''url'' kv) ''children'' = Some (JArr (c # cs))"
    and "map_of (AList.delete ''url'' kv) ''name'' = Some (JStr n)"
    using assms(1,2) by (simp_all add: delete_conv')
  then have b: "traverse_json (JObj (AList.delete ''url'' kv)) parent_name out = ?down"
    by (simp add: getitem_def)
  have c: "\<exists>new. es = out @ new \<and> (\<forall>e\<in>set new. prefix (parent_name @ n @ '' -> '') (name e))"
    if "traverse_json (JObj kv) parent_name out = Inr es" for es
  proof (rule for_each_emits)
    show "?down = Inr es" using that a by simp
  next
    fix x acc r
    assume "traverse_json x (parent_name @ n @ '' -> '') acc = Inr r"
    then show "\<exists>new. r = acc @ new \<and> (\<forall>e\<in>set new. prefix (parent_name @ n @ '' -> '') (name e))"
      by (rule traverse_json_emits)
  qed
  from a b c show ?thesis by simp
qed

theorem children_take_precedence_witness:
  "process_catalogue group_with_url = Inr [\<lparr>name = ''Bags -> Totes'', url = JStr ''totes55''\<rparr>]"
proof -
  let ?kv = "[(''name'', JStr ''Bags''), (''url'', JStr ''bags7''),
           (''children'', JArr [JObj [(''name'', JStr ''Totes''), (''url'', JStr ''totes55'')]])]"
  have 1: "map_of ?kv ''children'' = Some (JArr (JObj [(''name'', JStr ''Totes''), (''url'', JStr ''totes55'')] # []))"
    by simp
  have 2: "map_of ?kv ''name'' = Some (JStr ''Bags'')" by simp
  have 3: "map_of ?kv ''url'' = Some (JStr ''bags7'')" by simp
  from children_take_precedence[OF 1 2 3, of "[]" "[]"] show ?thesis
    by (simp add: process_catalogue_def group_with_url_def getitem_def)
qed

section \<open>Downloading\<close>

lemma download_state:
  "snd (download_current_catalogue w s) = record_event (HttpGet catalogue_url headers) s"
  by (simp add: download_current_catalogue_def Let_def split: http_result.splits option.splits)

text \<open>
  Claim C7. \<open>download_current_catalogue\<close> makes one request and no more. It raises when
  the call gives no response and when the status is one of 400 to 599; a response with
  another status and a JSON body is returned parsed. An error it raises leaves
  \<open>parse_product_cards\<close> and \<open>main\<close> as it is, in the state of the failure.
\<close>

theorem download_current_catalogue_outcome:
  assumes "download_current_catalogue w s = (r, s')"
  shows "s' = record_event (HttpGet catalogue_url headers) s \<and>
         (http_get w (events s) catalogue_url headers = NoResponse \<longrightarrow> r = Inl ConnectionError) \<and>
         (\<forall>st body. http_get w (events s) catalogue_url headers = Response st body \<and>
             400 \<le> st \<and> st < 600 \<longrightarrow> r = Inl (HTTPError st)) \<and>
         (\<forall>st j. http_get w (events s) catalogue_url headers = Response st (Some j) \<and>
             \<not> (400 \<le> st \<and> st < 600) \<longrightarrow> r = Inr j) \<and>
         (\<forall>e. r = Inl e \<longrightarrow> parse_product_cards w s = (Inl e, s') \<and> main w s = (Inl e, s'))"
  using assms
  by (auto simp: download_current_catalogue_def Let_def raises_for_status_def
      parse_product_cards_def main_def
      split: http_result.splits option.splits if_splits)

lemma shop_simps [simp]:
  "http_get (shop cat sl bl acc) h catalogue_url hs = cat"
  "http_get (shop cat sl bl acc) h (product_cards_url w (url shoes)) hs = sl"
  "http_get (shop cat sl bl acc) h (product_cards_url w (url bags)) hs = bl"
  "insert_product_card (shop cat sl bl acc) h p = acc p"
  "save_workbook (shop cat sl bl acc) h ps = True"
  by (simp_all add: shop_def catalogue_url_def product_cards_url_def shoes_def bags_def)

lemma process_shop_catalogue [simp]:
  "process_catalogue shop_catalogue = Inr [shoes, bags]"
  by (simp add: process_catalogue_def shop_catalogue_def getitem_def shoes_def bags_def)

lemma download_shop [simp]:
  "download_current_catalogue (shop (Response 200 (Some cat)) sl bl acc) s =
     (Inr cat, record_event (HttpGet catalogue_url headers) s)"
  by (simp add: download_current_catalogue_def raises_for_status_def)

theorem download_current_catalogue_outcome_witness:
  "fst (download_current_catalogue (shop NoResponse NoResponse NoResponse (\<lambda>p. True)) init)
     = Inl ConnectionError \<and>
   fst (download_current_catalogue (shop (Response 503 (Some shop_catalogue)) NoResponse NoResponse (\<lambda>p. True)) init)
     = Inl (HTTPError 503) \<and>
   fst (download_current_catalogue (shop (Response 200 (Some shop_catalogue)) NoResponse NoResponse (\<lambda>p. True)) init)
     = Inr shop_catalogue \<and>
   main (shop (Response 503 (Some shop_catalogue)) NoResponse NoResponse (\<lambda>p. True)) init
     = (Inl (HTTPError 503), \<lparr>product_cards = [], events = [HttpGet catalogue_url headers]\<rparr>)"
proof -
  let ?a = "shop NoResponse NoResponse NoResponse (\<lambda>p. True)"
  let ?b = "shop (Response 503 (Some shop_catalogue)) NoResponse NoResponse (\<lambda>p. True)"
  let ?c = "shop (Response 200 (Some shop_catalogue)) NoResponse NoResponse (\<lambda>p. True)"
  have a: "http_get ?a (events init) catalogue_url headers = NoResponse" by simp
  have b: "http_get ?b (events init) catalogue_url headers = Response 503 (Some shop_catalogue) \<and>
           (400::nat) \<le> 503 \<and> (503::nat) < 600" by simp
  have c: "http_get ?c (events init) catalogue_url headers = Response 200 (Some shop_catalogue) \<and>
           \<not> ((400::nat) \<le> 200 \<and> (200::nat) < 600)" by simp
  have 1: "fst (download_current_catalogue ?a init) = Inl ConnectionError"
    using download_current_catalogue_outcome[OF surjective_pairing, of ?a init] a by blast
  have 2: "fst (download_current_catalogue ?b init) = Inl (HTTPError 503)"
    using download_current_catalogue_outcome[OF surjective_pairing, of ?b init] b by blast
  have 3: "fst (download_current_catalogue ?c init) = Inr shop_catalogue"
    using download_current_catalogue_outcome[OF surjective_pairing, of ?c init] c by blast
  have "snd (download_current_catalogue ?b init) = record_event (HttpGet catalogue_url headers) init"
    using download_current_catalogue_outcome[OF surjective_pairing, of ?b init] by blast
  moreover have "main ?b init = (Inl (HTTPError 503), snd (download_current_catalogue ?b init))"
    using download_current_catalogue_outcome[OF surjective_pairing, of ?b init] 2 by blast
  ultimately have 4: "main ?b init
     = (Inl (HTTPError 503), \<lparr>product_cards = [], events = [HttpGet catalogue_url headers]\<rparr>)"
    by (simp add: record_event_def init_def)
  from 1 2 3 4 show ?thesis by blast
qed

section \<open>Fetching the product cards\<close>

lemma parse_category_state:
  assumes "parse_category w c s = (r, s')"
  shows "events s' = events s @ [listing_request w c]"
    and "prefix (product_cards s) (product_cards s')"
  using assms
  by (auto simp: parse_category_def Let_def record_event_def listing_request_def
      split: http_result.splits option.splits sum.splits)

lemma parse_categories_state:
  "parse_categories w cs s = (r, s') \<Longrightarrow>
     (\<exists>k\<le>length cs. events s' = events s @ map (listing_request w) (take k cs)) \<and>
     prefix (product_cards s) (product_cards s')"
proof (induction cs arbitrary: s)
  case Nil
  then show ?case by simp
next
  case (Cons c cs)
  obtain r1 s1 where step: "parse_category w c s = (r1, s1)"
    by (cases "parse_category w c s")
  note st = parse_category_state[OF step]
  show ?case
  proof (cases r1)
    case (Inl e)
    with Cons.prems step have "s' = s1" by simp
    with st have "events s' = events s @ map (listing_request w) (take 1 (c # cs))"
      and "prefix (product_cards s) (product_cards s')" by simp_all
    then show ?thesis by (metis One_nat_def Suc_leI length_Cons zero_less_Suc)
  next
    case (Inr u)
    with Cons.prems step have "parse_categories w cs s1 = (r, s')" by simp
    from Cons.IH[OF this] obtain k where k: "k \<le> length cs"
      "events s' = events s1 @ map (listing_request w) (take k cs)"
      and p: "prefix (product_cards s1) (product_cards s')" by blast
    have "events s' = events s @ map (listing_request w) (take (Suc k) (c # cs))"
      using k st by simp
    moreover have "Suc k \<le> length (c # cs)" using k by simp
    moreover have "prefix (product_cards s) (product_cards s')"
      using st(2) p by (rule prefix_order.trans)
    ultimately show ?thesis by blast
  qed
qed

lemma parse_categories_append:
  "parse_categories w (pre @ post) s =
     (case parse_categories w pre s of
        (Inl e, s') \<Rightarrow> (Inl e, s')
      | (Inr u, s') \<Rightarrow> parse_categories w post s')"
  by (induction pre arbitrary: s) (auto split: prod.splits sum.splits)

lemma filter_sink_listing [simp]:
  "filter is_sink_write (map (listing_request w) cs) = []"
  by (induction cs) (simp_all add: listing_request_def)

lemma filter_save_listing [simp]:
  "filter is_save (map (listing_request w) cs) = []"
  by (induction cs) (simp_all add: listing_request_def)

lemma filter_save_insert [simp]:
  "filter is_save (map InsertProductCard ps) = []"
  by (induction ps) simp_all

lemma parse_product_cards_events:
  assumes "parse_product_cards w s = (r, s')"
  shows "\<exists>cs. events s' = events s @ HttpGet catalogue_url headers # map (listing_request w) cs"
proof -
  obtain r0 s0 where d: "download_current_catalogue w s = (r0, s0)"
    by (cases "download_current_catalogue w s")
  with download_state[of w s] have s0: "events s0 = events s @ [HttpGet catalogue_url headers]"
    by (simp add: record_event_def)
  show ?thesis
  proof (cases r0)
    case (Inl e)
    with assms d have "s' = s0" by (simp add: parse_product_cards_def)
    with s0 have "events s' = events s @ HttpGet catalogue_url headers # map (listing_request w) []"
      by simp
    then show ?thesis by blast
  next
    case (Inr cat)
    show ?thesis
    proof (cases "process_catalogue cat")
      case (Inl e)
      with assms d Inr have "s' = s0" by (simp add: parse_product_cards_def)
      with s0 have "events s' = events s @ HttpGet catalogue_url headers # map (listing_request w) []"
        by simp
      then show ?thesis by blast
    next
      case (Inr cats)
      with assms d \<open>r0 = Inr cat\<close> have "parse_categories w cats s0 = (r, s')"
        by (simp add: parse_product_cards_def)
      from parse_categories_state[OF this] obtain k
        where "events s' = events s0 @ map (listing_request w) (take k cats)" by blast
      with s0 have "events s' = events s @ HttpGet catalogue_url headers # map (listing_request w) (take k cats)"
        by simp
      then show ?thesis by blast
    qed
  qed
qed

lemma parse_category_products:
  assumes "http_get w (events s) (product_cards_url w (url c)) headers = Response st (Some (JObj kv))"
    and "map_of kv ''products'' = Some (JArr ps)"
  shows "parse_category w c s =
           (Inr (), \<lparr>product_cards = product_cards s @ ps, events = events s @ [listing_request w c]\<rparr>)"
  using assms
  by (simp add: parse_category_def Let_def record_event_def listing_request_def getitem_def)

lemma parse_category_missing_products:
  assumes "http_get w (events s) (product_cards_url w (url c)) headers = Response st (Some (JObj kv))"
    and "map_of kv ''products'' = None"
  shows "parse_category w c s = (Inl (KeyError ''products''), record_event (listing_request w c) s)"
  using assms
  by (simp add: parse_category_def Let_def listing_request_def getitem_def)

lemma parse_categories_concat:
  assumes "length pss = length cats"
    and "\<forall>i<length cats. \<exists>st kv.
           http_get w (events s @ map (listing_request w) (take i cats))
             (product_cards_url w (url (cats ! i))) headers = Response st (Some (JObj kv)) \<and>
           map_of kv ''products'' = Some (JArr (pss ! i))"
  shows "parse_categories w cats s =
           (Inr (), \<lparr>product_cards = product_cards s @ concat pss,
                     events = events s @ map (listing_request w) cats\<rparr>)"
  using assms
proof (induction cats arbitrary: s pss)
  case Nil
  then show ?case by simp
next
  case (Cons c cs)
  then obtain ps pss' where pss: "pss = ps # pss'" and len: "length pss' = length cs"
    by (cases pss) auto
  from Cons.prems(2) have "\<exists>st kv.
           http_get w (events s @ map (listing_request w) (take 0 (c # cs)))
             (product_cards_url w (url ((c # cs) ! 0))) headers = Response st (Some (JObj kv)) \<and>
           map_of kv ''products'' = Some (JArr (pss ! 0))"
    by blast
  then obtain st kv where
    "http_get w (events s) (product_cards_url w (url c)) headers = Response st (Some (JObj kv))"
    "map_of kv ''products'' = Some (JArr ps)"
    using pss by auto
  from parse_category_products[OF this]
  have step: "parse_category w c s =
           (Inr (), \<lparr>product_cards = product_cards s @ ps, events = events s @ [listing_request w c]\<rparr>)" .
  let ?s1 = "\<lparr>product_cards = product_cards s @ ps, events = events s @ [listing_request w c]\<rparr>"
  have rest: "\<forall>i<length cs. \<exists>st kv.
           http_get w (events ?s1 @ map (listing_request w) (take i cs))
             (product_cards_url w (url (cs ! i))) headers = Response st (Some (JObj kv)) \<and>
           map_of kv ''products'' = Some (JArr (pss' ! i))"
  proof (intro allI impI)
    fix i assume "i < length cs"
    then have "Suc i < length (c # cs)" by simp
    with Cons.prems(2) have "\<exists>st kv.
           http_get w (events s @ map (listing_request w) (take (Suc i) (c # cs)))
             (product_cards_url w (url ((c # cs) ! Suc i))) headers = Response st (Some (JObj kv)) \<and>
           map_of kv ''products'' = Some (JArr (pss ! Suc i))"
      by blast
    then show "\<exists>st kv.
           http_get w (events ?s1 @ map (listing_request w) (take i cs))
             (product_cards_url w (url (cs ! i))) headers = Response st (Some (JObj kv)) \<and>
           map_of kv ''products'' = Some (JArr (pss' ! i))"
      using pss by simp
  qed
  from Cons.IH[OF len rest] step pss show ?case by simp
qed

text \<open>
  Claim C5. When the catalogue flattens to the categories \<open>cats\<close> and the listing of
  each category, requested in that order, is an object whose \<^verbatim>\<open>products\<close> is the list
  \<open>pss ! i\<close>, then \<open>parse_product_cards\<close> succeeds and the collection is the one before
  followed by the concatenation of those lists: categories in their order, within a
  category the order of the response, nothing removed. For the categories C1 and C2
  with the products p1, p2 and p3 a new parser ends with exactly p1, p2, p3.
\<close>

theorem parse_product_cards_concat:
  assumes "download_current_catalogue w s = (Inr catalogue, s0)"
    and "process_catalogue catalogue = Inr cats"
    and "length pss = length cats"
    and "\<forall>i<length cats. \<exists>st kv.
           http_get w (events s0 @ map (listing_request w) (take i cats))
             (product_cards_url w (url (cats ! i))) headers = Response st (Some (JObj kv)) \<and>
           map_of kv ''products'' = Some (JArr (pss ! i))"
  shows "parse_product_cards w s =
           (Inr (), \<lparr>product_cards = product_cards s @ concat pss,
                     events = events s0 @ map (listing_request w) cats\<rparr>)"
proof -
  have "product_cards s0 = product_cards s"
    using assms(1) download_state[of w s] by (simp add: record_event_def)
  with parse_categories_concat[OF assms(3,4)] assms(1,2) show ?thesis
    by (simp add: parse_product_cards_def)
qed

lemma parse_shoes [simp]:
  "parse_category (shop cat (Response st (Some (listing ps))) bl acc) shoes s =
     (Inr (), \<lparr>product_cards = product_cards s @ ps,
               events = events s @ [HttpGet ''https://search.wb.ru/catalog/shoes123'' headers]\<rparr>)"
  by (simp add: parse_category_def Let_def record_event_def listing_def getitem_def
      shop_def product_cards_url_def shoes_def catalogue_url_def)

lemma parse_bags [simp]:
  "parse_category (shop cat sl (Response st (Some (listing ps))) acc) bags s =
     (Inr (), \<lparr>product_cards = product_cards s @ ps,
               events = events s @ [HttpGet ''https://search.wb.ru/catalog/bags7'' headers]\<rparr>)"
  by (simp add: parse_category_def Let_def record_event_def listing_def getitem_def
      shop_def product_cards_url_def bags_def catalogue_url_def)

lemma parse_shop [simp]:
  "parse_product_cards
     (shop (Response 200 (Some shop_catalogue)) (Response st1 (Some (listing ps1)))
        (Response st2 (Some (listing ps2))) acc) s =
   (Inr (), \<lparr>product_cards = product_cards s @ ps1 @ ps2,
             events = events s @ [HttpGet catalogue_url headers,
                       HttpGet ''https://search.wb.ru/catalog/shoes123'' headers,
                       HttpGet ''https://search.wb.ru/catalog/bags7'' headers]\<rparr>)"
  by (simp add: parse_product_cards_def record_event_def)

theorem parse_product_cards_concat_witness:
  "parse_product_cards
     (shop (Response 200 (Some shop_catalogue))
        (Response 200 (Some (listing [product 1, product 2])))
        (Response 200 (Some (listing [product 3]))) (\<lambda>p. True)) init =
   (Inr (), \<lparr>product_cards = [product 1, product 2, product 3],
             events = [HttpGet catalogue_url headers,
                       HttpGet ''https://search.wb.ru/catalog/shoes123'' headers,
                       HttpGet ''https://search.wb.ru/catalog/bags7'' headers]\<rparr>)"
proof -
  let ?w = "shop (Response 200 (Some shop_catalogue))
        (Response 200 (Some (listing [product 1, product 2])))
        (Response 200 (Some (listing [product 3]))) (\<lambda>p. True)"
  let ?s0 = "record_event (HttpGet catalogue_url headers) init"
  have d: "download_current_catalogue ?w init = (Inr shop_catalogue, ?s0)" by simp
  have p: "process_catalogue shop_catalogue = Inr [shoes, bags]" by simp
  have l: "length [[product 1, product 2], [product 3]] = length [shoes, bags]" by simp
  have r: "\<forall>i<length [shoes, bags]. \<exists>st kv.
           http_get ?w (events ?s0 @ map (listing_request ?w) (take i [shoes, bags]))
             (product_cards_url ?w (url ([shoes, bags] ! i))) headers = Response st (Some (JObj kv)) \<and>
           map_of kv ''products'' = Some (JArr ([[product 1, product 2], [product 3]] ! i))"
    by (simp add: All_less_Suc listing_def)
  from parse_product_cards_concat[OF d p l r] show ?thesis
    by (simp add: init_def record_event_def listing_request_def product_cards_url_def shoes_def bags_def)
qed

text \<open>
  Claim C3 says that a listing request answered with a failure status makes
  \<open>parse_product_cards\<close> fail. \<open>download_current_catalogue\<close> calls
  \<^verbatim>\<open>raise_for_status\<close>; the loop over the categories does not, and takes the body of
  any response as a listing: with the status 500 for Shoes and 404 for Bags the run
  returns normally and the products of both bodies are in the collection.
\<close>

theorem listing_status_not_checked:
  "parse_product_cards
     (shop (Response 200 (Some shop_catalogue))
        (Response 500 (Some (listing [product 1])))
        (Response 404 (Some (listing [product 2]))) (\<lambda>p. True)) init =
   (Inr (), \<lparr>product_cards = [product 1, product 2],
             events = [HttpGet catalogue_url headers,
                       HttpGet ''https://search.wb.ru/catalog/shoes123'' headers,
                       HttpGet ''https://search.wb.ru/catalog/bags7'' headers]\<rparr>)"
  by (simp add: init_def)

text \<open>
  Claim C4. When the run reaches a category whose listing is a JSON object without the
  key \<^verbatim>\<open>products\<close>, \<open>parse_product_cards\<close> raises KeyError, \<open>main\<close> ends with that
  error in the same state, and the run has written to neither sink: the calls it added
  are requests only.
\<close>

theorem missing_products_halts:
  assumes "download_current_catalogue w s = (Inr catalogue, s0)"
    and "process_catalogue catalogue = Inr (pre @ c # post)"
    and "parse_categories w pre s0 = (Inr (), s1)"
    and "http_get w (events s1) (product_cards_url w (url c)) headers = Response st (Some (JObj kv))"
    and "map_of kv ''products'' = None"
  shows "parse_product_cards w s = (Inl (KeyError ''products''), record_event (listing_request w c) s1) \<and>
         main w s = (Inl (KeyError ''products''), record_event (listing_request w c) s1) \<and>
         filter is_sink_write (events (snd (main w s))) = filter is_sink_write (events s)"
proof -
  have p: "parse_product_cards w s = (Inl (KeyError ''products''), record_event (listing_request w c) s1)"
    using assms(1,2,3) parse_category_missing_products[OF assms(4,5)]
    by (simp add: parse_product_cards_def parse_categories_append)
  then have m: "main w s = (Inl (KeyError ''products''), record_event (listing_request w c) s1)"
    by (simp add: main_def)
  from parse_product_cards_events[OF p] obtain cs where
    "events (record_event (listing_request w c) s1) =
       events s @ HttpGet catalogue_url headers # map (listing_request w) cs" by blast
  then have "filter is_sink_write (events (snd (main w s))) = filter is_sink_write (events s)"
    using m by simp
  with p m show ?thesis by simp
qed

theorem missing_products_halts_witness:
  "main
     (shop (Response 200 (Some shop_catalogue))
        (Response 200 (Some (listing [product 1, product 2])))
        (Response 200 (Some (JObj [(''error'', JStr ''no such category'')]))) (\<lambda>p. True)) init =
   (Inl (KeyError ''products''),
    \<lparr>product_cards = [product 1, product 2],
     events = [HttpGet catalogue_url headers,
               HttpGet ''https://search.wb.ru/catalog/shoes123'' headers,
               HttpGet ''https://search.wb.ru/catalog/bags7'' headers]\<rparr>)"
proof -
  let ?w = "shop (Response 200 (Some shop_catalogue))
        (Response 200 (Some (listing [product 1, product 2])))
        (Response 200 (Some (JObj [(''error'', JStr ''no such category'')]))) (\<lambda>p. True)"
  let ?s0 = "record_event (HttpGet catalogue_url headers) init"
  let ?s1 = "\<lparr>product_cards = [product 1, product 2],
     events = [HttpGet catalogue_url headers,
               HttpGet ''https://search.wb.ru/catalog/shoes123'' headers]\<rparr>"
  have d: "download_current_catalogue ?w init = (Inr shop_catalogue, ?s0)" by simp
  have p: "process_catalogue shop_catalogue = Inr ([shoes] @ bags # [])" by simp
  have l: "parse_categories ?w [shoes] ?s0 = (Inr (), ?s1)"
    by (simp add: init_def record_event_def)
  have r: "http_get ?w (events ?s1) (product_cards_url ?w (url bags)) headers =
             Response 200 (Some (JObj [(''error'', JStr ''no such category'')]))"
    by simp
  have k: "map_of [(''error'', JStr ''no such category'')] ''products'' = None" by simp
  from missing_products_halts[OF d p l r k] show ?thesis
    by (simp add: record_event_def listing_request_def product_cards_url_def bags_def)
qed

section \<open>The sinks\<close>

lemma insert_all_state:
  "insert_all w ps s = (r, s') \<Longrightarrow>
     product_cards s' = product_cards s \<and>
     (\<exists>k\<le>length ps. events s' = events s @ map InsertProductCard (take k ps) \<and>
        (case r of Inl e \<Rightarrow> e = InsertError \<and> 0 < k | Inr u \<Rightarrow> k = length ps))"
proof (induction ps arbitrary: s)
  case Nil
  then show ?case by auto
next
  case (Cons p ps)
  let ?s1 = "record_event (InsertProductCard p) s"
  show ?case
  proof (cases "insert_product_card w (events s) p")
    case False
    with Cons.prems have "r = Inl InsertError" "s' = ?s1" by (simp_all add: Let_def)
    then have "product_cards s' = product_cards s"
      and "events s' = events s @ map InsertProductCard (take 1 (p # ps))"
      by (simp_all add: record_event_def)
    then show ?thesis using \<open>r = Inl InsertError\<close>
      by (intro conjI exI[of _ 1]) simp_all
  next
    case True
    with Cons.prems have "insert_all w ps ?s1 = (r, s')" by (simp add: Let_def)
    from Cons.IH[OF this] obtain k where k: "k \<le> length ps"
      "events s' = events ?s1 @ map InsertProductCard (take k ps)"
      "case r of Inl e \<Rightarrow> e = InsertError \<and> 0 < k | Inr u \<Rightarrow> k = length ps"
      and pc: "product_cards s' = product_cards ?s1" by blast
    have "events s' = events s @ map InsertProductCard (take (Suc k) (p # ps))"
      using k(2) by (simp add: record_event_def)
    moreover have "case r of Inl e \<Rightarrow> e = InsertError \<and> 0 < Suc k | Inr u \<Rightarrow> Suc k = length (p # ps)"
      using k(3) by (simp split: sum.splits)
    moreover have "product_cards s' = product_cards s"
      using pc by (simp add: record_event_def)
    ultimately show ?thesis using k(1)
      by (intro conjI exI[of _ "Suc k"]) simp_all
  qed
qed

text \<open>
  Claim C6. When \<open>parse_product_cards\<close> has succeeded and \<open>write_to_database\<close> raises,
  after some number \<open>k\<close> of inserts that returned, \<open>main\<close> ends with that error in
  the state of the failure: the run has made no call to the spreadsheet writer, so no
  workbook was written.
\<close>

theorem database_failure_skips_excel:
  assumes "parse_product_cards w s = (Inr (), s1)"
    and "write_to_database w s1 = (Inl e, s2)"
  shows "main w s = (Inl e, s2) \<and>
         filter is_save (events s2) = filter is_save (events s) \<and>
         (\<exists>k<length (product_cards s1).
            events s2 = events s1 @ map InsertProductCard (take (Suc k) (product_cards s1)))"
proof -
  have m: "main w s = (Inl e, s2)"
    using assms by (simp add: main_def)
  from assms(2) have "insert_all w (product_cards s1) s1 = (Inl e, s2)"
    by (simp add: write_to_database_def)
  from insert_all_state[OF this] obtain k where k: "k \<le> length (product_cards s1)"
    "events s2 = events s1 @ map InsertProductCard (take k (product_cards s1))" "0 < k"
    by auto
  from parse_product_cards_events[OF assms(1)] obtain cs where
    "events s1 = events s @ HttpGet catalogue_url headers # map (listing_request w) cs" by blast
  with k(2) have "filter is_save (events s2) = filter is_save (events s)"
    by simp
  moreover from k obtain j where "k = Suc j" "j < length (product_cards s1)"
    by (cases k) auto
  ultimately show ?thesis using m k(2) by blast
qed

theorem database_failure_skips_excel_witness:
  "main
     (shop (Response 200 (Some shop_catalogue))
        (Response 200 (Some (listing [product 1, product 2])))
        (Response 200 (Some (listing [product 3]))) (\<lambda>p. p \<noteq> product 2)) init =
   (Inl InsertError,
    \<lparr>product_cards = [product 1, product 2, product 3],
     events = [HttpGet catalogue_url headers,
               HttpGet ''https://search.wb.ru/catalog/shoes123'' headers,
               HttpGet ''https://search.wb.ru/catalog/bags7'' headers,
               InsertProductCard (product 1), InsertProductCard (product 2)]\<rparr>)"
proof -
  let ?w = "shop (Response 200 (Some shop_catalogue))
        (Response 200 (Some (listing [product 1, product 2])))
        (Response 200 (Some (listing [product 3]))) (\<lambda>p. p \<noteq> product 2)"
  let ?s1 = "\<lparr>product_cards = [product 1, product 2, product 3],
     events = [HttpGet catalogue_url headers,
               HttpGet ''https://search.wb.ru/catalog/shoes123'' headers,
               HttpGet ''https://search.wb.ru/catalog/bags7'' headers]\<rparr>"
  let ?s2 = "\<lparr>product_cards = [product 1, product 2, product 3],
     events = [HttpGet catalogue_url headers,
               HttpGet ''https://search.wb.ru/catalog/shoes123'' headers,
               HttpGet ''https://search.wb.ru/catalog/bags7'' headers,
               InsertProductCard (product 1), InsertProductCard (product 2)]\<rparr>"
  have p: "parse_product_cards ?w init = (Inr (), ?s1)"
    by (simp add: init_def)
  have d: "write_to_database ?w ?s1 = (Inl InsertError, ?s2)"
    by (simp add: write_to_database_def record_event_def product_def)
  from database_failure_skips_excel[OF p d] show ?thesis by simp
qed

section \<open>The product collection only grows\<close>

lemma prepend_cards_simps [simp]:
  "events (prepend_cards xs t) = events t"
  "product_cards (prepend_cards xs t) = xs @ product_cards t"
  "prepend_cards xs t\<lparr>product_cards := []\<rparr> = t\<lparr>product_cards := []\<rparr>"
  "prepend_cards xs (prepend_cards ys t) = prepend_cards (xs @ ys) t"
  by (simp_all add: prepend_cards_def)

lemma parse_category_frame:
  "parse_category w c s =
     apsnd (prepend_cards (product_cards s)) (parse_category w c (s\<lparr>product_cards := []\<rparr>))"
  by (simp add: parse_category_def Let_def record_event_def prepend_cards_def
      split: http_result.splits option.splits sum.splits)

lemma parse_categories_frame:
  "parse_categories w cs s =
     apsnd (prepend_cards (product_cards s)) (parse_categories w cs (s\<lparr>product_cards := []\<rparr>))"
proof (induction cs arbitrary: s)
  case Nil
  show ?case by (simp add: prepend_cards_def)
next
  case (Cons c cs)
  obtain r1 t1 where e: "parse_category w c (s\<lparr>product_cards := []\<rparr>) = (r1, t1)"
    by (cases "parse_category w c (s\<lparr>product_cards := []\<rparr>)")
  then have f: "parse_category w c s = (r1, prepend_cards (product_cards s) t1)"
    using parse_category_frame[of w c s] by simp
  show ?case
  proof (cases r1)
    case (Inl x)
    then show ?thesis using e f by simp
  next
    case (Inr u)
    have "parse_categories w (c # cs) s = parse_categories w cs (prepend_cards (product_cards s) t1)"
      using f Inr by simp
    also have "\<dots> = apsnd (prepend_cards (product_cards s @ product_cards t1))
                       (parse_categories w cs (t1\<lparr>product_cards := []\<rparr>))"
      using Cons.IH[of "prepend_cards (product_cards s) t1"] by simp
    also have "\<dots> = apsnd (prepend_cards (product_cards s))
                       (apsnd (prepend_cards (product_cards t1))
                          (parse_categories w cs (t1\<lparr>product_cards := []\<rparr>)))"
      by (cases "parse_categories w cs (t1\<lparr>product_cards := []\<rparr>)") simp
    also have "\<dots> = apsnd (prepend_cards (product_cards s)) (parse_categories w cs t1)"
      using Cons.IH[of t1] by simp
    also have "\<dots> = apsnd (prepend_cards (product_cards s))
                       (parse_categories w (c # cs) (s\<lparr>product_cards := []\<rparr>))"
      using e Inr by simp
    finally show ?thesis .
  qed
qed

lemma download_frame:
  "download_current_catalogue w s =
     apsnd (prepend_cards (product_cards s))
       (download_current_catalogue w (s\<lparr>product_cards := []\<rparr>))"
  by (simp add: download_current_catalogue_def Let_def record_event_def prepend_cards_def
      split: http_result.splits option.splits)

lemma parse_product_cards_frame:
  "parse_product_cards w s =
     apsnd (prepend_cards (product_cards s))
       (parse_product_cards w (s\<lparr>product_cards := []\<rparr>))"
proof -
  obtain r0 t0 where e: "download_current_catalogue w (s\<lparr>product_cards := []\<rparr>) = (r0, t0)"
    by (cases "download_current_catalogue w (s\<lparr>product_cards := []\<rparr>)")
  then have f: "download_current_catalogue w s = (r0, prepend_cards (product_cards s) t0)"
    using download_frame[of w s] by simp
  have t0: "product_cards t0 = []"
    using e download_state[of w "s\<lparr>product_cards := []\<rparr>"] by (simp add: record_event_def)
  show ?thesis
  proof (cases r0)
    case (Inl x)
    then show ?thesis using e f by (simp add: parse_product_cards_def)
  next
    case (Inr cat)
    show ?thesis
    proof (cases "process_catalogue cat")
      case (Inl x)
      then show ?thesis using e f Inr by (simp add: parse_product_cards_def)
    next
      case (Inr cats)
      have "parse_product_cards w s = parse_categories w cats (prepend_cards (product_cards s) t0)"
        using f Inr \<open>r0 = Inr cat\<close> by (simp add: parse_product_cards_def)
      also have "\<dots> = apsnd (prepend_cards (product_cards s @ product_cards t0))
                         (parse_categories w cats (t0\<lparr>product_cards := []\<rparr>))"
        using parse_categories_frame[of w cats "prepend_cards (product_cards s) t0"] by simp
      also have "\<dots> = apsnd (prepend_cards (product_cards s)) (parse_categories w cats t0)"
        using parse_categories_frame[of w cats t0] t0
        by (cases "parse_categories w cats (t0\<lparr>product_cards := []\<rparr>)") simp
      also have "\<dots> = apsnd (prepend_cards (product_cards s))
                         (parse_product_cards w (s\<lparr>product_cards := []\<rparr>))"
        using e Inr \<open>r0 = Inr cat\<close> by (simp add: parse_product_cards_def)
      finally show ?thesis .
    qed
  qed
qed

lemma parse_product_cards_extends:
  "product_cards (snd (parse_product_cards w s)) = product_cards s @ fetched w s"
  using parse_product_cards_frame[of w s]
  by (cases "parse_product_cards w (s\<lparr>product_cards := []\<rparr>)") (simp add: fetched_def)

lemma write_to_database_cards:
  "product_cards (snd (write_to_database w s)) = product_cards s"
  using insert_all_state[of w "product_cards s" s]
  by (cases "write_to_database w s") (simp add: write_to_database_def)

lemma write_to_excel_cards:
  "product_cards (snd (write_to_excel w s)) = product_cards s"
  by (simp add: write_to_excel_def Let_def record_event_def)

text \<open>
  Claim C10. The collection is append-only: whatever its outcome, \<open>parse_product_cards\<close>
  leaves the records that were there, in their order, followed by the records the run
  fetched; the other operations leave the collection as it is. Two runs in a row
  therefore give the records of the first run followed by those of the second, repeated
  records included.
\<close>

theorem product_cards_append_only:
  "product_cards (snd (parse_product_cards w s)) = product_cards s @ fetched w s \<and>
   product_cards (snd (parse_product_cards w (snd (parse_product_cards w s)))) =
     product_cards s @ fetched w s @ fetched w (snd (parse_product_cards w s)) \<and>
   product_cards (snd (download_current_catalogue w s)) = product_cards s \<and>
   product_cards (snd (write_to_database w s)) = product_cards s \<and>
   product_cards (snd (write_to_excel w s)) = product_cards s"
proof -
  have "product_cards (snd (download_current_catalogue w s)) = product_cards s"
    by (simp add: download_state record_event_def)
  then show ?thesis
    by (simp add: parse_product_cards_extends write_to_database_cards write_to_excel_cards)
qed

theorem product_cards_append_only_witness:
  "product_cards (snd (parse_product_cards
     (shop (Response 200 (Some shop_catalogue))
        (Response 200 (Some (listing [product 1, product 2])))
        (Response 200 (Some (listing [product 1]))) (\<lambda>p. True))
     (snd (parse_product_cards
        (shop (Response 200 (Some shop_catalogue))
          (Response 200 (Some (listing [product 1, product 2])))
          (Response 200 (Some (listing [product 1]))) (\<lambda>p. True)) init)))) =
   [product 1, product 2, product 1, product 1, product 2, product 1]"
proof -
  let ?w = "shop (Response 200 (Some shop_catalogue))
        (Response 200 (Some (listing [product 1, product 2])))
        (Response 200 (Some (listing [product 1]))) (\<lambda>p. True)"
  have "fetched ?w init = [product 1, product 2, product 1]"
    and "fetched ?w (snd (parse_product_cards ?w init)) = [product 1, product 2, product 1]"
    by (simp_all add: fetched_def)
  with product_cards_append_only[of ?w init] show ?thesis
    by (simp add: init_def)
qed

end
